theory Spec2Isabelle
  imports Complex_Main "HOL-Library.Word" "HOL-Library.Log_Nat"
begin

unbundle bit_operations_syntax

section \<open>Memory model\<close>

text \<open>
  The program in \<^verbatim>\<open>Fibonacci.c\<close> keeps its two matrices in arrays of three scalars each
  and passes them around by pointer; one call passes the same array as output and as input.
  Memory is therefore modelled explicitly: an address is a natural number, a store maps
  addresses to scalars, and \<^verbatim>\<open>p[i]\<close> reads or writes address \<open>p + i\<close>.

  The scalar type \<^verbatim>\<open>real\<close> of the source (a macro for \<^verbatim>\<open>__float128\<close> or
  \<^verbatim>\<open>long double\<close>) is modelled by the mathematical reals: arithmetic is exact, there is
  no rounding and no overflow to infinity.
\<close>

type_synonym addr = nat
type_synonym store = "addr \<Rightarrow> real"

text \<open>The three scalars of the array at \<open>p\<close>, in index order.\<close>

definition load3 :: "addr \<Rightarrow> store \<Rightarrow> real \<times> real \<times> real" where
  "load3 p s = (s (p + 0), s (p + 1), s (p + 2))"

section \<open>The matrix routines\<close>

text \<open>
  \<^verbatim>\<open>matrix_to2(real* mat)\<close>, lines 113 to 123: the three elements are read into locals,
  \<open>b * b\<close> is computed once, and the three elements are overwritten in index order.
\<close>

definition matrix_to2 :: "addr \<Rightarrow> store \<Rightarrow> store" where
  "matrix_to2 mat s =
    (let a = s (mat + 0);
         b = s (mat + 1);
         b2 = b * b;
         c = s (mat + 2);
         s1 = s(mat + 0 := a * a + b2);
         s2 = s1(mat + 1 := a * b + b * c);
         s3 = s2(mat + 2 := b2 + c * c)
     in s3)"

text \<open>
  \<^verbatim>\<open>matrix_multiply(real* out, real const* in1, real const* in2)\<close>, lines 147 to 161:
  six loads from the store as it is on entry, then three writes through \<open>out\<close>. The three
  pointers are arbitrary addresses; nothing in the model assumes that they are distinct.
\<close>

definition matrix_multiply :: "addr \<Rightarrow> addr \<Rightarrow> addr \<Rightarrow> store \<Rightarrow> store" where
  "matrix_multiply out in1 in2 s =
    (let a = s (in1 + 0);
         b = s (in1 + 1);
         c = s (in1 + 2);
         d = s (in2 + 0);
         e = s (in2 + 1);
         f = s (in2 + 2);
         be = b * e;
         s1 = s(out + 0 := a * d + be);
         s2 = s1(out + 1 := a * e + b * f);
         s3 = s2(out + 2 := be + c * f)
     in s3)"

section \<open>The loop and the function\<close>

text \<open>
  The index has the C type \<^verbatim>\<open>long\<close>, a signed machine integer whose width the platform
  fixes; it is a word of any length \<open>'l\<close>, read as two's complement by \<^const>\<open>sint\<close>.
  \<^verbatim>\<open>index & 1\<close> is bitwise. \<^verbatim>\<open>index >>= 1\<close> on a signed operand is the arithmetic shift
  \<^const>\<open>signed_drop_bit\<close> (the sign bit is copied in from the left), which is what the
  compilers the source names do with a negative value, where C leaves the result to the
  implementation. \<^verbatim>\<open>index --\<close> wraps around at the least value, where C leaves the
  behaviour undefined. The statements below about non-negative and about negative indices
  exclude that case by their hypotheses; the statement that a call's outcome depends on
  the index alone ranges over every index and covers that case as the wrap-around gives it.

  The loop \<^verbatim>\<open>for(;;)\<close> of lines 226 to 239 has no bound of its own, so it is a partial
  function: \<^const>\<open>None\<close> is the loop that never leaves. Its arguments are the addresses of
  the arrays \<^verbatim>\<open>mat\<close> and \<^verbatim>\<open>ret\<close>, the current index and the store. The last
  argument is not in the source: it counts the passes through the loop body begun so far,
  and is returned beside the final store.
\<close>

partial_function (option) fib_loop ::
  "addr \<Rightarrow> addr \<Rightarrow> 'l::len word \<Rightarrow> store \<Rightarrow> nat \<Rightarrow> (store \<times> nat) option" where
  "fib_loop mat ret index s k =
    (let s1 = (if index AND 1 \<noteq> 0 then matrix_multiply ret ret mat s else s);
         index1 = signed_drop_bit 1 index
     in if index1 = 0 then Some (s1, Suc k)
        else fib_loop mat ret index1 (matrix_to2 mat s1) (Suc k))"

text \<open>
  The initialisers \<^verbatim>\<open>real mat[3] = {1, 1, 0}\<close> and \<^verbatim>\<open>real ret[3] = {1, 1, 0}\<close> of
  lines 212 and 213.
\<close>

definition init_arrays :: "addr \<Rightarrow> addr \<Rightarrow> store \<Rightarrow> store" where
  "init_arrays mat ret s =
    s(mat + 0 := 1, mat + 1 := 1, mat + 2 := 0, ret + 0 := 1, ret + 1 := 1, ret + 2 := 0)"

text \<open>
  \<^verbatim>\<open>fibonacci(long index)\<close>, lines 210 to 242. A call runs in some memory \<open>s\<close> with its
  frame at some address \<open>fp\<close>: \<^verbatim>\<open>mat\<close> occupies \<open>fp, fp + 1, fp + 2\<close> and \<^verbatim>\<open>ret\<close>
  the three addresses after it. The result is \<^const>\<open>None\<close> when the call does not return,
  and otherwise the returned scalar, the memory as the call leaves it, and the number of
  passes through the loop body.
\<close>

definition fibonacci :: "addr \<Rightarrow> store \<Rightarrow> 'l::len word \<Rightarrow> (real \<times> store \<times> nat) option" where
  "fibonacci fp s index =
    (let mat = fp;
         ret = fp + 3;
         s0 = init_arrays mat ret s
     in if index = 0 then Some (0, s0, 0)
        else if index = 1 then Some (1, s0, 0)
        else (case fib_loop mat ret (index - 1) s0 0 of
                None \<Rightarrow> None
              | Some (s', k) \<Rightarrow> Some (s' (ret + 1), s', k)))"

text \<open>The scalar a call returns, if it returns.\<close>

definition fibonacci_value :: "addr \<Rightarrow> store \<Rightarrow> 'l::len word \<Rightarrow> real option" where
  "fibonacci_value fp s index = map_option fst (fibonacci fp s index)"

text \<open>A memory that holds zero everywhere, for concrete runs.\<close>

definition zero_store :: store where
  "zero_store = (\<lambda>a. 0)"

section \<open>Reference definitions\<close>

text \<open>
  The Fibonacci numbers as the specification gives them: \<open>F(0) = 0\<close>, \<open>F(1) = 1\<close>, and
  each later one the sum of the two before it.
\<close>

fun Fib :: "nat \<Rightarrow> nat" where
  "Fib 0 = 0"
| "Fib (Suc 0) = 1"
| "Fib (Suc (Suc n)) = Fib (Suc n) + Fib n"

text \<open>
  Full two-by-two matrices, as four entries in row order, with the general product whose
  four entries the comment before \<^verbatim>\<open>matrix_multiply\<close> lists, and the power obtained by
  multiplying a matrix by itself one factor at a time.
\<close>

type_synonym mat2 = "real \<times> real \<times> real \<times> real"

fun mat2_mult :: "mat2 \<Rightarrow> mat2 \<Rightarrow> mat2" where
  "mat2_mult (a, b, b', c) (d, e, e', f) =
    (a * d + b * e', a * e + b * f, b' * d + c * e', b' * e + c * f)"

definition mat2_one :: mat2 where
  "mat2_one = (1, 0, 0, 1)"

primrec mat2_pow :: "mat2 \<Rightarrow> nat \<Rightarrow> mat2" where
  "mat2_pow M 0 = mat2_one"
| "mat2_pow M (Suc k) = mat2_mult M (mat2_pow M k)"

text \<open>The base matrix, and the full matrix that three stored scalars stand for.\<close>

definition base2 :: mat2 where
  "base2 = (1, 1, 1, 0)"

fun full :: "real \<times> real \<times> real \<Rightarrow> mat2" where
  "full (a, b, c) = (a, b, b, c)"

text \<open>The top-right entry of a full matrix.\<close>

fun top_right :: "mat2 \<Rightarrow> real" where
  "top_right (a, b, b', c) = b"

text \<open>The three-entry product of section 4.2 of the specification, on values.\<close>

fun mult3 :: "real \<times> real \<times> real \<Rightarrow> real \<times> real \<times> real \<Rightarrow> real \<times> real \<times> real" where
  "mult3 (a, b, c) (d, e, f) = (a * d + b * e, a * e + b * f, b * e + c * f)"

section \<open>Auxiliary facts\<close>

lemma sint_shift: "sint (signed_drop_bit (Suc 0) (w::'l::len word)) = sint w div 2"
  by (simp add: sint_signed_drop_bit_eq drop_bit_eq_div)

lemma sint_zero_iff: "(sint (w::'l::len word) = 0) = (w = 0)"
  by (metis sint_0 signed_eq_0_iff)

lemma odd_sint: "odd (sint (w::'l::len word)) = odd w"
proof -
  have "odd (sint w) = bit (sint w) 0" by (simp add: bit_0)
  also have "\<dots> = bit w 0" by (simp add: bit_sint_iff)
  also have "\<dots> = odd w" by (simp add: bit_0)
  finally show ?thesis .
qed

lemma low_bit_odd: "((w::'l::len word) AND 1 \<noteq> 0) = odd (sint w)"
proof -
  have "(w AND 1 \<noteq> 0) = (w mod 2 \<noteq> 0)"
    by (simp only: and_one_eq)
  also have "\<dots> = odd w" by (simp only: even_iff_mod_2_eq_zero)
  finally show ?thesis by (simp only: odd_sint)
qed

lemma mat2_mult_assoc: "mat2_mult (mat2_mult A B) C = mat2_mult A (mat2_mult B C)"
  by (cases A; cases B; cases C) (simp add: algebra_simps)

lemma mat2_mult_one_left: "mat2_mult mat2_one A = A"
  by (cases A) (simp add: mat2_one_def)

lemma mat2_pow_add: "mat2_pow M (i + j) = mat2_mult (mat2_pow M i) (mat2_pow M j)"
  by (induction i) (simp_all add: mat2_mult_assoc mat2_mult_one_left)

lemma base2_pow_Suc:
  "mat2_pow base2 (Suc k) = (real (Fib (Suc (Suc k))), real (Fib (Suc k)), real (Fib (Suc k)), real (Fib k))"
  by (induction k) (simp_all add: base2_def mat2_one_def)

lemma base2_pow_shape: "\<exists>b c. mat2_pow base2 k = (b + c, b, b, c)"
proof (cases k)
  case 0
  have "mat2_pow base2 0 = (0 + 1, 0, 0, 1)" by (simp add: mat2_one_def)
  then show ?thesis unfolding 0 by blast
next
  case (Suc n)
  have "mat2_pow base2 (Suc n) = (real (Fib (Suc n)) + real (Fib n), real (Fib (Suc n)), real (Fib (Suc n)), real (Fib n))"
    unfolding base2_pow_Suc by simp
  then show ?thesis unfolding Suc by blast
qed

lemma mult3_powers:
  assumes "full x = mat2_pow base2 i" and "full y = mat2_pow base2 j"
  shows "full (mult3 x y) = mat2_pow base2 (i + j)"
proof -
  obtain b c where x: "mat2_pow base2 i = (b + c, b, b, c)"
    using base2_pow_shape by blast
  obtain e f where y: "mat2_pow base2 j = (e + f, e, e, f)"
    using base2_pow_shape by blast
  from assms x have x': "x = (b + c, b, c)" by (cases x) simp
  from assms y have y': "y = (e + f, e, f)" by (cases y) simp
  have "full (mult3 x y) = mat2_mult (mat2_pow base2 i) (mat2_pow base2 j)"
    unfolding x y x' y' by (simp add: algebra_simps)
  then show ?thesis by (simp add: mat2_pow_add)
qed

lemma load3_matrix_multiply:
  "load3 out (matrix_multiply out in1 in2 s) = mult3 (load3 in1 s) (load3 in2 s)"
  by (simp add: load3_def matrix_multiply_def Let_def)

lemma matrix_multiply_other:
  "a \<notin> {out ..< out + 3} \<Longrightarrow> matrix_multiply out in1 in2 s a = s a"
  by (auto simp add: matrix_multiply_def Let_def)

lemma load3_matrix_to2:
  "load3 mat (matrix_to2 mat s) = mult3 (load3 mat s) (load3 mat s)"
  by (simp add: load3_def matrix_to2_def Let_def)

lemma matrix_to2_other:
  "a \<notin> {mat ..< mat + 3} \<Longrightarrow> matrix_to2 mat s a = s a"
  by (auto simp add: matrix_to2_def Let_def)

lemma load3_other:
  assumes "p + 3 \<le> q \<or> q + 3 \<le> p" and "\<And>a. a \<notin> {q ..< q + 3} \<Longrightarrow> s' a = s a"
  shows "load3 p s' = load3 p s"
  using assms by (auto simp add: load3_def)

lemma floorlog_half: "2 \<le> e \<Longrightarrow> floorlog 2 e = Suc (floorlog 2 (e div 2))"
  by (subst compute_floorlog) simp

lemma floorlog_small: "e < 2 \<Longrightarrow> floorlog 2 e \<le> 1"
  by (subst compute_floorlog) (simp add: floorlog_def)

lemma floorlog_pos: "0 < e \<Longrightarrow> 1 \<le> floorlog 2 e"
  by (subst compute_floorlog) simp

lemma fib_loop_nonneg:
  fixes index :: "'l::len word"
  assumes "0 \<le> sint index" and "mat + 3 \<le> ret \<or> ret + 3 \<le> mat"
    and "full (load3 mat s) = mat2_pow base2 p"
    and "full (load3 ret s) = mat2_pow base2 j"
  shows "\<exists>s'. fib_loop mat ret index s k
              = Some (s', k + max 1 (floorlog 2 (nat (sint index))))
           \<and> full (load3 ret s') = mat2_pow base2 (j + p * nat (sint index))
           \<and> (\<forall>a. a \<notin> {mat ..< mat + 3} \<union> {ret ..< ret + 3} \<longrightarrow> s' a = s a)"
  using assms
proof (induction "nat (sint index)" arbitrary: index s p j k rule: less_induct)
  case less
  define e where "e = nat (sint index)"
  define s1 where "s1 = (if index AND 1 \<noteq> 0 then matrix_multiply ret ret mat s else s)"
  define index1 where "index1 = signed_drop_bit (Suc 0) index"
  have e_int: "sint index = int e" using less.prems(1) by (simp add: e_def)
  have bit: "(index AND 1 \<noteq> 0) = odd e"
    by (simp only: low_bit_odd e_int even_of_nat_iff)
  have i1: "sint index1 = int (e div 2)"
    by (simp add: index1_def sint_shift e_int zdiv_int)
  have i1_nat: "nat (sint index1) = e div 2" by (simp add: i1)
  have i1_zero: "(index1 = 0) = (e < 2)"
    using i1 sint_zero_iff [of index1] by auto
  have ret1: "full (load3 ret s1) = mat2_pow base2 (j + p * (e mod 2))"
  proof (cases "odd e")
    case True
    then have "load3 ret s1 = mult3 (load3 ret s) (load3 mat s)"
      by (simp add: s1_def bit load3_matrix_multiply)
    moreover from True have "e mod 2 = 1" by presburger
    ultimately show ?thesis
      using mult3_powers [OF less.prems(4) less.prems(3)] by simp
  next
    case False
    then have "s1 = s" by (simp add: s1_def bit)
    moreover from False have "e mod 2 = 0" by presburger
    ultimately show ?thesis using less.prems(4) by simp
  qed
  have s1_other: "s1 a = s a" if "a \<notin> {ret ..< ret + 3}" for a
    using that by (simp add: s1_def matrix_multiply_other)
  have mat1: "full (load3 mat s1) = mat2_pow base2 p"
    using load3_other [of mat ret s1 s] s1_other less.prems(2,3) by simp
  have unfold: "fib_loop mat ret index s k =
      (if index1 = 0 then Some (s1, Suc k)
       else fib_loop mat ret index1 (matrix_to2 mat s1) (Suc k))"
    by (subst fib_loop.simps) (simp add: Let_def s1_def index1_def)
  show ?case
  proof (cases "e < 2")
    case True
    then have "e div 2 = 0" and "e mod 2 = e" by simp_all
    moreover have "max 1 (floorlog 2 e) = 1" using floorlog_small [OF True] by simp
    ultimately show ?thesis
      using True ret1 s1_other unfolding unfold i1_zero e_def [symmetric] by auto
  next
    case False
    define s2 where "s2 = matrix_to2 mat s1"
    have s2_other: "s2 a = s1 a" if "a \<notin> {mat ..< mat + 3}" for a
      using that by (simp add: s2_def matrix_to2_other)
    have ret2: "full (load3 ret s2) = mat2_pow base2 (j + p * (e mod 2))"
      using load3_other [of ret mat s2 s1] s2_other less.prems(2) ret1 by auto
    have mat2: "full (load3 mat s2) = mat2_pow base2 (p + p)"
      using mult3_powers [OF mat1 mat1] by (simp add: s2_def load3_matrix_to2)
    have smaller: "nat (sint index1) < nat (sint index)"
      using False by (simp add: i1 e_int)
    have nonneg1: "0 \<le> sint index1" by (simp add: i1)
    from less.hyps [OF smaller nonneg1 less.prems(2) mat2 ret2, of "Suc k"]
    obtain s' where run: "fib_loop mat ret index1 s2 (Suc k)
          = Some (s', Suc k + max 1 (floorlog 2 (nat (sint index1))))"
      and res: "full (load3 ret s') = mat2_pow base2 (j + p * (e mod 2) + (p + p) * nat (sint index1))"
      and oth: "\<forall>a. a \<notin> {mat ..< mat + 3} \<union> {ret ..< ret + 3} \<longrightarrow> s' a = s2 a"
      by blast
    have "p * m + (p + p) * d = p * (m + 2 * d)" for m d :: nat
      by (simp add: algebra_simps)
    from this [of "e mod 2" "e div 2"]
    have "p * (e mod 2) + (p + p) * (e div 2) = p * e" by simp
    then have expo: "j + p * (e mod 2) + (p + p) * nat (sint index1) = j + p * e"
      by (simp add: i1_nat)
    have "0 < e div 2" using False by simp
    then have "max 1 (floorlog 2 (e div 2)) = floorlog 2 (e div 2)"
      using floorlog_pos [of "e div 2"] by simp
    moreover have "floorlog 2 e = Suc (floorlog 2 (e div 2))"
      using False by (simp add: floorlog_half)
    ultimately have count: "Suc k + max 1 (floorlog 2 (nat (sint index1)))
        = k + max 1 (floorlog 2 e)"
      by (simp add: i1_nat)
    have "\<forall>a. a \<notin> {mat ..< mat + 3} \<union> {ret ..< ret + 3} \<longrightarrow> s' a = s a"
      using oth s2_other s1_other by auto
    then show ?thesis
      using False run res unfolding unfold i1_zero s2_def [symmetric] expo count e_def [symmetric]
      by simp
  qed
qed

lemma fib_loop_returns_nonneg:
  fixes index :: "'l::len word"
  assumes "fib_loop mat ret index s k = Some y"
  shows "0 \<le> sint index"
proof (rule fib_loop.raw_induct
    [where P = "\<lambda>(m::addr) (r::addr) (i::'l word) (t::store) (c::nat) (z::store \<times> nat). 0 \<le> sint i",
      OF _ assms])
  fix loop :: "addr \<Rightarrow> addr \<Rightarrow> 'l word \<Rightarrow> store \<Rightarrow> nat \<Rightarrow> (store \<times> nat) option"
    and m r :: addr and i :: "'l word" and t :: store and c :: nat and z :: "store \<times> nat"
  assume IH: "\<And>m r i t c z. loop m r i t c = Some z \<Longrightarrow> 0 \<le> sint i"
    and body: "(let s1 = (if i AND 1 \<noteq> 0 then matrix_multiply r r m t else t);
                    index1 = signed_drop_bit 1 i
                in if index1 = 0 then Some (s1, Suc c)
                   else loop m r index1 (matrix_to2 m s1) (Suc c)) = Some z"
  show "0 \<le> sint i"
  proof (rule ccontr)
    assume "\<not> 0 \<le> sint i"
    then have neg: "sint (signed_drop_bit (Suc 0) i) < 0"
      by (simp add: sint_shift)
    then have "signed_drop_bit (Suc 0) i \<noteq> 0" by auto
    with body obtain s1 where "loop m r (signed_drop_bit (Suc 0) i) s1 (Suc c) = Some z"
      by (simp add: Let_def)
    from IH [OF this] neg show False by simp
  qed
qed

lemma fib_loop_negative:
  fixes index :: "'l::len word"
  assumes "sint index < 0"
  shows "fib_loop mat ret index s k = None"
proof (cases "fib_loop mat ret index s k")
  case None
  then show ?thesis .
next
  case (Some y)
  from fib_loop_returns_nonneg [OF this] assms show ?thesis by simp
qed

lemma sint_one: "sint (1::'l::len word) = (if LENGTH('l) = 1 then - 1 else 1)"
  by (cases "LENGTH('l) = 1") (auto simp add: sint_word_01 )

lemma sint_pred:
  fixes n :: "'l::len word"
  assumes "0 < sint n"
  shows "sint (n - 1) = sint n - 1"
proof -
  have one: "sint (1::'l word) = 1"
  proof (cases "LENGTH('l) = 1")
    case True
    have "sint n < 2 ^ (LENGTH('l) - 1)" by (rule sint_lt)
    with True assms show ?thesis by simp
  next
    case False
    then show ?thesis by (simp add: sint_one)
  qed
  have upper: "sint n - 1 < 2 ^ (LENGTH('l) - 1)"
    using sint_lt [of n] by simp
  have "- (2 ^ (LENGTH('l) - 1)) \<le> (0::int)" by simp
  then have lower: "- (2 ^ (LENGTH('l) - 1)) \<le> sint n - 1"
    using assms by linarith
  have "sint (n - 1) = signed_take_bit (LENGTH('l) - 1) (sint n - sint (1::'l word))"
    by (rule sint_word_diff)
  also have "\<dots> = signed_take_bit (LENGTH('l) - 1) (sint n - 1)"
    by (simp only: one)
  also have "\<dots> = sint n - 1"
    by (rule signed_take_bit_int_eq_self [OF lower upper])
  finally show ?thesis .
qed

lemma sint_one_iff:
  fixes n :: "'l::len word"
  assumes "sint n = 1"
  shows "n = 1"
proof -
  have "sint (n - 1) = 0" using sint_pred [of n] assms by simp
  then have "n - 1 = 0" by (simp only: sint_zero_iff)
  then show ?thesis by simp
qed

lemma init_arrays_mat: "load3 fp (init_arrays fp (fp + 3) s) = (1, 1, 0)"
  by (simp add: load3_def init_arrays_def)

lemma init_arrays_ret: "load3 (fp + 3) (init_arrays fp (fp + 3) s) = (1, 1, 0)"
  by (simp add: load3_def init_arrays_def)

lemma init_arrays_other: "a \<notin> {fp ..< fp + 6} \<Longrightarrow> init_arrays fp (fp + 3) s a = s a"
  by (auto simp add: init_arrays_def)

lemma base2_pow_one: "mat2_pow base2 (Suc 0) = (1, 1, 1, 0)"
  by (simp add: base2_def mat2_one_def)

lemma fibonacci_loop_case:
  fixes n :: "'l::len word"
  assumes "n \<noteq> 0" and "n \<noteq> 1" and "0 \<le> sint (n - 1)"
  shows "\<exists>s'. fibonacci fp s n
            = Some (top_right (mat2_pow base2 (Suc (nat (sint (n - 1))))), s',
                    max 1 (floorlog 2 (nat (sint (n - 1)))))
          \<and> full (load3 (fp + 3) s') = mat2_pow base2 (Suc (nat (sint (n - 1))))
          \<and> (\<forall>a. a \<notin> {fp ..< fp + 6} \<longrightarrow> s' a = s a)"
proof -
  define s0 where "s0 = init_arrays fp (fp + 3) s"
  have m: "full (load3 fp s0) = mat2_pow base2 (Suc 0)"
    by (simp only: s0_def init_arrays_mat base2_pow_one full.simps)
  have r: "full (load3 (fp + 3) s0) = mat2_pow base2 (Suc 0)"
    by (simp only: s0_def init_arrays_ret base2_pow_one full.simps)
  have d: "fp + 3 \<le> fp + 3 \<or> fp + 3 + 3 \<le> fp" by simp
  from fib_loop_nonneg [OF assms(3) d m r, of 0]
  obtain s' where run: "fib_loop fp (fp + 3) (n - 1) s0 0
        = Some (s', max 1 (floorlog 2 (nat (sint (n - 1)))))"
    and res: "full (load3 (fp + 3) s') = mat2_pow base2 (Suc (nat (sint (n - 1))))"
    and oth: "\<forall>a. a \<notin> {fp ..< fp + 3} \<union> {fp + 3 ..< fp + 3 + 3} \<longrightarrow> s' a = s0 a"
    by auto
  have val: "s' (fp + 3 + 1) = top_right (mat2_pow base2 (Suc (nat (sint (n - 1)))))"
    unfolding res [symmetric] by (simp add: load3_def)
  have "fibonacci fp s n = Some (s' (fp + 3 + 1), s', max 1 (floorlog 2 (nat (sint (n - 1)))))"
    using assms(1,2) run by (simp add: fibonacci_def Let_def s0_def)
  moreover have "\<forall>a. a \<notin> {fp ..< fp + 6} \<longrightarrow> s' a = s a"
    using oth init_arrays_other [of _ fp s] by (auto simp add: s0_def)
  ultimately show ?thesis using res val by simp
qed

lemma fibonacci_neg_case:
  fixes n :: "'l::len word"
  assumes "n \<noteq> 0" and "n \<noteq> 1" and "sint (n - 1) < 0"
  shows "fibonacci fp s n = None"
  using assms by (simp add: fibonacci_def Let_def fib_loop_negative)

lemma fibonacci_nonneg:
  fixes n :: "'l::len word"
  assumes "0 \<le> sint n"
  shows "\<exists>s'. fibonacci fp s n
            = Some (real (Fib (nat (sint n))), s', floorlog 2 (nat (sint n - 1)))
          \<and> (\<forall>a. a \<notin> {fp ..< fp + 6} \<longrightarrow> s' a = s a)
          \<and> (2 \<le> sint n \<longrightarrow> full (load3 (fp + 3) s') = mat2_pow base2 (nat (sint n)))"
proof -
  consider "n = 0" | "n = 1" | "n \<noteq> 0" "n \<noteq> 1" by blast
  then show ?thesis
  proof cases
    case 1
    have "floorlog 2 0 = 0" by (simp add: floorlog_def)
    then show ?thesis
      unfolding 1 by (simp add: fibonacci_def Let_def init_arrays_other)
  next
    case 2
    with assms have one: "sint (1::'l word) = 1"
      by (simp add: sint_one split: if_splits)
    have "floorlog 2 0 = 0" by (simp add: floorlog_def)
    then show ?thesis
      using one unfolding 2 by (simp add: fibonacci_def Let_def init_arrays_other)
  next
    case 3
    have "sint n \<noteq> 0" using 3(1) by (simp add: sint_zero_iff)
    moreover have "sint n \<noteq> 1" using 3(2) sint_one_iff by blast
    ultimately have ge2: "2 \<le> sint n" using assms by simp
    then have pred: "sint (n - 1) = sint n - 1" by (simp add: sint_pred)
    then have nonneg: "0 \<le> sint (n - 1)" using ge2 by simp
    have idx: "Suc (nat (sint (n - 1))) = nat (sint n)" using ge2 pred by simp
    obtain m where m: "nat (sint n) = Suc m" using ge2 by (cases "nat (sint n)") simp_all
    have tr: "top_right (mat2_pow base2 (nat (sint n))) = real (Fib (nat (sint n)))"
      unfolding m base2_pow_Suc by simp
    have "0 < nat (sint (n - 1))" using ge2 pred by simp
    then have cnt: "max 1 (floorlog 2 (nat (sint (n - 1)))) = floorlog 2 (nat (sint n - 1))"
      using floorlog_pos [of "nat (sint (n - 1))"] by (simp add: pred)
    from fibonacci_loop_case [OF 3 nonneg, of fp s]
    show ?thesis unfolding idx tr cnt by blast
  qed
qed

lemma fib_loop_last_pass:
  "signed_drop_bit 1 index = 0 \<Longrightarrow>
    fib_loop mat ret index s k
      = Some (if index AND 1 \<noteq> 0 then matrix_multiply ret ret mat s else s, Suc k)"
  by (subst fib_loop.simps) (simp add: Let_def)

lemma signed_drop_bit_negative:
  fixes w :: "'l::len word"
  assumes "sint w < 0"
  shows "signed_drop_bit k w \<noteq> 0"
proof
  assume "signed_drop_bit k w = 0"
  then have "sint (signed_drop_bit k w) = 0" by simp
  then have "sint w div 2 ^ k = 0"
    by (simp add: sint_signed_drop_bit_eq drop_bit_eq_div)
  moreover have "sint w div 2 ^ k < 0"
    using assms by (simp add: div_neg_pos_less0)
  ultimately show False by simp
qed

lemma floorlog_le_log:
  assumes "0 < m"
  shows "real (floorlog 2 m) \<le> log 2 (real m) + 1"
proof -
  have "0 \<le> log 2 (real m)" using assms by simp
  then have "real (nat \<lfloor>log 2 (real m)\<rfloor>) \<le> log 2 (real m)"
    by (simp add: of_nat_nat)
  then show ?thesis using assms by (simp add: floorlog_def)
qed

lemma sint_small_numeral:
  assumes "6 \<le> LENGTH('l::len)" and "m < 32"
  shows "sint (of_nat m :: 'l word) = int m"
proof -
  have "(2::nat) ^ 5 \<le> 2 ^ (LENGTH('l) - 1)"
    using assms(1) by (intro power_increasing) simp_all
  then have "m < 2 ^ (LENGTH('l) - 1)" using assms(2) by simp
  then have "int m < 2 ^ (LENGTH('l) - 1)" by simp
  moreover have "- (2 ^ (LENGTH('l) - 1)) \<le> (0::int)" by simp
  then have "- (2 ^ (LENGTH('l) - 1)) \<le> int m" by linarith
  ultimately have "signed_take_bit (LENGTH('l) - 1) (int m) = int m"
    by (simp only: signed_take_bit_int_eq_self)
  moreover have "(of_nat m :: 'l word) = word_of_int (int m)" by simp
  ultimately show ?thesis by (simp only: sint_sbintrunc')
qed

lemma fibonacci_value_small:
  assumes "6 \<le> LENGTH('l::len)" and "m < 32"
  shows "fibonacci_value fp s (of_nat m :: 'l word) = Some (real (Fib m))"
proof -
  have "sint (of_nat m :: 'l word) = int m" using assms by (rule sint_small_numeral)
  then have "0 \<le> sint (of_nat m :: 'l word)" and "nat (sint (of_nat m :: 'l word)) = m"
    by simp_all
  with fibonacci_nonneg [of "of_nat m :: 'l word" fp s] show ?thesis
    by (auto simp add: fibonacci_value_def)
qed

section \<open>The matrix routines: claims C10, C3 and C4\<close>

text \<open>
  Claim C10. \<^verbatim>\<open>matrix_multiply\<close> computes the product of the values its two inputs hold
  before the call, also when the output array is one of the inputs: for arbitrary
  addresses \<open>out\<close>, \<open>in1\<close> and \<open>in2\<close>, equal or overlapping or not, each of the three
  elements written through \<open>out\<close> is the product entry formed from the store on entry.
  The last conjunct is the call \<^verbatim>\<open>matrix_multiply(ret, ret, mat)\<close> of line 231.
\<close>

theorem matrix_multiply_reads_before_writes:
  "matrix_multiply out in1 in2 s (out + 0) = s (in1 + 0) * s (in2 + 0) + s (in1 + 1) * s (in2 + 1)
   \<and> matrix_multiply out in1 in2 s (out + 1) = s (in1 + 0) * s (in2 + 1) + s (in1 + 1) * s (in2 + 2)
   \<and> matrix_multiply out in1 in2 s (out + 2) = s (in1 + 1) * s (in2 + 1) + s (in1 + 2) * s (in2 + 2)
   \<and> load3 ret (matrix_multiply ret ret mat s) = mult3 (load3 ret s) (load3 mat s)"
  by (simp add: matrix_multiply_def Let_def load3_def)

text \<open>
  Claim C3. For a symmetric matrix that is a power of the base matrix, held at \<open>m\<close>,
  squaring it in place by \<^verbatim>\<open>matrix_to2\<close> leaves the same three values that
  \<^verbatim>\<open>matrix_multiply\<close> writes to any output array when both inputs are \<open>m\<close>; with \<open>m\<close> as
  output too, the two routines leave the same store. (The proof does not use the
  hypothesis: the two routines evaluate the same three expressions.)
\<close>

theorem matrix_to2_agrees_with_multiply:
  assumes "full (load3 m s) = mat2_pow base2 k"
  shows "load3 m (matrix_to2 m s) = load3 out (matrix_multiply out m m s)
         \<and> matrix_to2 m s = matrix_multiply m m m s"
proof
  show "load3 m (matrix_to2 m s) = load3 out (matrix_multiply out m m s)"
    by (simp only: load3_matrix_to2 load3_matrix_multiply)
  show "matrix_to2 m s = matrix_multiply m m m s"
    by (simp add: matrix_to2_def matrix_multiply_def Let_def)
qed

text \<open>Claim C3 at the third power of the base matrix, whose square is the sixth.\<close>

theorem matrix_to2_agrees_with_multiply_witness:
  "full (load3 0 (zero_store(0 := 3, 1 := 2, 2 := 1))) = mat2_pow base2 3
   \<and> load3 0 (matrix_to2 0 (zero_store(0 := 3, 1 := 2, 2 := 1))) = (13, 8, 5)
   \<and> load3 5 (matrix_multiply 5 0 0 (zero_store(0 := 3, 1 := 2, 2 := 1))) = (13, 8, 5)"
proof -
  have h: "full (load3 0 (zero_store(0 := 3, 1 := 2, 2 := 1))) = mat2_pow base2 3"
    by (simp add: load3_def numeral_eq_Suc base2_def mat2_one_def)
  have v: "load3 0 (matrix_to2 0 (zero_store(0 := 3, 1 := 2, 2 := 1))) = (13, 8, 5)"
    by (simp add: load3_def matrix_to2_def Let_def)
  have "load3 0 (matrix_to2 0 (zero_store(0 := 3, 1 := 2, 2 := 1)))
      = load3 5 (matrix_multiply 5 0 0 (zero_store(0 := 3, 1 := 2, 2 := 1)))"
    using matrix_to2_agrees_with_multiply [OF h, of 5] by (rule conjunct1)
  with h v show ?thesis by (simp only: simp_thms)
qed

text \<open>
  Claim C4. When the arrays at \<open>in1\<close> and \<open>in2\<close> hold powers of the base matrix, as
  \<open>(a, b, c)\<close> and \<open>(d, e, f)\<close>, then \<open>a * e + b * f = b * d + c * e\<close>: the top-right and
  bottom-left entries of the full product are equal. So the three values that
  \<^verbatim>\<open>matrix_multiply\<close> writes stand for the full four-entry product, which is again
  symmetric and again a power of the base matrix.
\<close>

theorem matrix_multiply_of_powers:
  assumes "full (load3 in1 s) = mat2_pow base2 i"
    and "full (load3 in2 s) = mat2_pow base2 j"
  shows "s (in1 + 0) * s (in2 + 1) + s (in1 + 1) * s (in2 + 2)
           = s (in1 + 1) * s (in2 + 0) + s (in1 + 2) * s (in2 + 1)
         \<and> full (load3 out (matrix_multiply out in1 in2 s))
           = mat2_mult (mat2_pow base2 i) (mat2_pow base2 j)
         \<and> full (load3 out (matrix_multiply out in1 in2 s)) = mat2_pow base2 (i + j)"
proof -
  obtain b c where x: "mat2_pow base2 i = (b + c, b, b, c)"
    using base2_pow_shape by blast
  obtain e f where y: "mat2_pow base2 j = (e + f, e, e, f)"
    using base2_pow_shape by blast
  from assms(1) x have x': "s (in1 + 0) = b + c" "s (in1 + 1) = b" "s (in1 + 2) = c"
    by (simp_all add: load3_def)
  from assms(2) y have y': "s (in2 + 0) = e + f" "s (in2 + 1) = e" "s (in2 + 2) = f"
    by (simp_all add: load3_def)
  have sym: "s (in1 + 0) * s (in2 + 1) + s (in1 + 1) * s (in2 + 2)
           = s (in1 + 1) * s (in2 + 0) + s (in1 + 2) * s (in2 + 1)"
    unfolding x' y' by (simp add: algebra_simps)
  have pow: "full (load3 out (matrix_multiply out in1 in2 s)) = mat2_pow base2 (i + j)"
    unfolding load3_matrix_multiply by (rule mult3_powers [OF assms])
  from sym pow show ?thesis by (simp add: mat2_pow_add)
qed

text \<open>Claim C4 at the third and second powers, with the output aliasing the first input.\<close>

theorem matrix_multiply_of_powers_witness:
  "full (load3 0 (zero_store(0 := 3, 1 := 2, 2 := 1, 3 := 2, 4 := 1, 5 := 1))) = mat2_pow base2 3
   \<and> full (load3 3 (zero_store(0 := 3, 1 := 2, 2 := 1, 3 := 2, 4 := 1, 5 := 1))) = mat2_pow base2 2
   \<and> full (load3 0 (matrix_multiply 0 0 3 (zero_store(0 := 3, 1 := 2, 2 := 1, 3 := 2, 4 := 1, 5 := 1))))
       = mat2_mult (mat2_pow base2 3) (mat2_pow base2 2)
   \<and> mat2_mult (mat2_pow base2 3) (mat2_pow base2 2) = (8, 5, 5, 3)"
proof -
  let ?s = "zero_store(0 := 3, 1 := 2, 2 := 1, 3 := 2, 4 := 1, 5 := 1)"
  have h1: "full (load3 0 ?s) = mat2_pow base2 3"
    by (simp add: load3_def numeral_eq_Suc base2_def mat2_one_def)
  have h2: "full (load3 3 ?s) = mat2_pow base2 2"
    by (simp add: load3_def numeral_eq_Suc base2_def mat2_one_def)
  have v: "mat2_mult (mat2_pow base2 3) (mat2_pow base2 2) = (8, 5, 5, 3)"
    by (simp add: numeral_eq_Suc base2_def mat2_one_def)
  from matrix_multiply_of_powers [OF h1 h2, of 0] h1 h2 v show ?thesis by simp
qed

section \<open>The loop: claims C2, C5 and C6\<close>

text \<open>
  Claim C2, as stated, at exponent 1: with both arrays holding the base matrix, the loop
  leaves the accumulator at \<open>(2, 1, 1)\<close>, the square of the base matrix, and not at its
  first power \<open>(1, 1, 0)\<close>.
\<close>

theorem fib_loop_power_counterexample:
  "map_option (full \<circ> load3 3 \<circ> fst) (fib_loop 0 3 (1::64 word) (init_arrays 0 3 zero_store) 0)
     = Some (2, 1, 1, 1)
   \<and> Some (2, 1, 1, 1) \<noteq> Some (mat2_pow base2 (nat (sint (1::64 word))))"
proof -
  have "signed_drop_bit 1 (1::64 word) = 0" by simp
  from fib_loop_last_pass [OF this, of 0 3 "init_arrays 0 3 zero_store" 0]
  have "map_option (full \<circ> load3 3 \<circ> fst)
          (fib_loop 0 3 (1::64 word) (init_arrays 0 3 zero_store) 0) = Some (2, 1, 1, 1)"
    by (simp add: matrix_multiply_def Let_def init_arrays_def zero_store_def load3_def)
  moreover have "mat2_pow base2 (nat (sint (1::64 word))) = (1, 1, 1, 0)"
    by (simp add: base2_def mat2_one_def)
  ultimately show ?thesis by simp
qed

text \<open>
  Claim C2, amended. Under exact arithmetic in place of floating point (the scalars are
  the mathematical reals, as everywhere in this theory): given a non-negative exponent
  \<open>e\<close>, with the accumulator and the power-of-two arrays disjoint and both holding the
  base matrix, the loop terminates with the accumulator equal to the base matrix raised
  to the power \<open>e + 1\<close>: the accumulator starts at the base matrix, not at the
  identity, so it carries one factor more than the exponent counts. In particular for
  every \<open>k\<close> from 0 to 15 the result is the product of \<open>k + 1\<close> copies of the base
  matrix. Nothing is said here about the rounded values that the floating-point type of
  the source holds once the entries outgrow its significand.
\<close>

theorem fib_loop_power:
  fixes e :: "'l::len word"
  assumes "0 \<le> sint e" and "mat + 3 \<le> ret \<or> ret + 3 \<le> mat"
    and "load3 mat s = (1, 1, 0)" and "load3 ret s = (1, 1, 0)"
  shows "\<exists>s' k'. fib_loop mat ret e s k = Some (s', k')
           \<and> full (load3 ret s') = mat2_pow base2 (Suc (nat (sint e)))"
proof -
  have m: "full (load3 mat s) = mat2_pow base2 (Suc 0)"
    by (simp only: assms(3) base2_pow_one full.simps)
  have r: "full (load3 ret s) = mat2_pow base2 (Suc 0)"
    by (simp only: assms(4) base2_pow_one full.simps)
  from fib_loop_nonneg [OF assms(1,2) m r, of k] show ?thesis by auto
qed

text \<open>
  Claim C2, amended, at exponent 15: the accumulator ends at the sixteenth power, whose
  entries are small integers.
\<close>

theorem fib_loop_power_witness:
  "0 \<le> sint (15::64 word) \<and> (0 + 3 \<le> (3::nat) \<or> 3 + 3 \<le> (0::nat))
   \<and> load3 0 (init_arrays 0 3 zero_store) = (1, 1, 0)
   \<and> load3 3 (init_arrays 0 3 zero_store) = (1, 1, 0)
   \<and> (\<exists>s' k'. fib_loop 0 3 (15::64 word) (init_arrays 0 3 zero_store) 0 = Some (s', k')
           \<and> full (load3 3 s') = (1597, 987, 987, 610))
   \<and> mat2_pow base2 16 = (1597, 987, 987, 610)"
proof -
  have h1: "0 \<le> sint (15::64 word)" by simp
  have h2: "0 + 3 \<le> (3::nat) \<or> 3 + 3 \<le> (0::nat)" by simp
  have h3: "load3 0 (init_arrays 0 3 zero_store) = (1, 1, 0)"
    by (simp add: load3_def init_arrays_def)
  have h4: "load3 3 (init_arrays 0 3 zero_store) = (1, 1, 0)"
    by (simp add: load3_def init_arrays_def)
  have p: "mat2_pow base2 (Suc (nat (sint (15::64 word)))) = (1597, 987, 987, 610)"
    by (simp add: numeral_eq_Suc base2_def mat2_one_def)
  have p': "mat2_pow base2 16 = (1597, 987, 987, 610)"
    by (simp add: numeral_eq_Suc base2_def mat2_one_def)
  from fib_loop_power [OF h1 h2 h3 h4, of 0]
  have "\<exists>s' k'. fib_loop 0 3 (15::64 word) (init_arrays 0 3 zero_store) 0 = Some (s', k')
           \<and> full (load3 3 s') = (1597, 987, 987, 610)"
    unfolding p .
  with h1 h2 h3 h4 p' show ?thesis by (simp only: simp_thms)
qed

text \<open>
  Claim C5. For a negative index whose decrement is still negative (every negative index
  but the least one, where \<^verbatim>\<open>index --\<close> overflows), the value that reaches the loop is
  negative; the arithmetic right shift keeps it negative, so no number of shifts makes
  it zero, the loop never leaves, and the call does not return.
\<close>

theorem fibonacci_negative_diverges:
  fixes n :: "'l::len word"
  assumes "sint n < 0" and "sint (n - 1) < 0"
  shows "(\<forall>k. signed_drop_bit k (n - 1) \<noteq> 0)
         \<and> fib_loop fp (fp + 3) (n - 1) (init_arrays fp (fp + 3) s) 0 = None
         \<and> fibonacci fp s n = None"
proof -
  have "n \<noteq> 0" using assms(1) by auto
  moreover have "n \<noteq> 1" using assms(2) by auto
  ultimately have "fibonacci fp s n = None"
    using assms(2) by (rule fibonacci_neg_case)
  moreover have "\<forall>k. signed_drop_bit k (n - 1) \<noteq> 0"
    using assms(2) by (simp add: signed_drop_bit_negative)
  moreover have "fib_loop fp (fp + 3) (n - 1) (init_arrays fp (fp + 3) s) 0 = None"
    using assms(2) by (rule fib_loop_negative)
  ultimately show ?thesis by simp
qed

text \<open>
  Claim C5 at index \<open>- 1\<close> on a 64-bit \<^verbatim>\<open>long\<close>: the loop starts at \<open>- 2\<close>, one shift
  gives \<open>- 1\<close>, and every further shift gives \<open>- 1\<close> again.
\<close>

theorem fibonacci_negative_diverges_witness:
  "sint (- 1 :: 64 word) < 0 \<and> sint (- 1 - 1 :: 64 word) < 0
   \<and> signed_drop_bit 1 (- 1 - 1 :: 64 word) = - 1
   \<and> signed_drop_bit 1 (- 1 :: 64 word) = - 1
   \<and> signed_drop_bit 200 (- 1 - 1 :: 64 word) \<noteq> 0
   \<and> fibonacci 0 zero_store (- 1 :: 64 word) = None"
proof -
  have h1: "sint (- 1 :: 64 word) < 0" by simp
  have h2: "sint (- 1 - 1 :: 64 word) < 0" by simp
  have a: "signed_drop_bit 1 (- 1 - 1 :: 64 word) = - 1" by simp
  have b: "signed_drop_bit 1 (- 1 :: 64 word) = - 1" by simp
  from fibonacci_negative_diverges [OF h1 h2, of 0 zero_store]
  have "signed_drop_bit 200 (- 1 - 1 :: 64 word) \<noteq> 0"
    and "fibonacci 0 zero_store (- 1 :: 64 word) = None"
    by blast+
  with h1 h2 a b show ?thesis by (simp only: simp_thms)
qed

text \<open>
  Claim C6. For every non-negative index \<open>n\<close> the call returns, and the number of passes
  through the loop body is the bit length of \<open>n - 1\<close> (\<^const>\<open>floorlog\<close> to base 2, which
  is 0 at 0; so no pass at all for \<open>n = 0\<close> and \<open>n = 1\<close>). For \<open>n \<ge> 2\<close> that is at most
  \<open>log\<^sub>2 (n - 1) + 1\<close>.
\<close>

theorem fibonacci_terminates_logarithmic:
  fixes n :: "'l::len word"
  assumes "0 \<le> sint n"
  shows "\<exists>r m k. fibonacci fp s n = Some (r, m, k)
           \<and> k = floorlog 2 (nat (sint n - 1))
           \<and> (2 \<le> sint n \<longrightarrow> real k \<le> log 2 (real_of_int (sint n - 1)) + 1)"
proof -
  from fibonacci_nonneg [OF assms, of fp s]
  obtain m where run: "fibonacci fp s n
        = Some (real (Fib (nat (sint n))), m, floorlog 2 (nat (sint n - 1)))"
    by blast
  have "real (floorlog 2 (nat (sint n - 1))) \<le> log 2 (real_of_int (sint n - 1)) + 1"
    if "2 \<le> sint n"
  proof -
    have "0 < nat (sint n - 1)" using that by simp
    from floorlog_le_log [OF this] that show ?thesis by simp
  qed
  with run show ?thesis by blast
qed

text \<open>Claim C6 at index 1000: ten passes, the bit length of 999.\<close>

theorem fibonacci_terminates_logarithmic_witness:
  "0 \<le> sint (1000::64 word) \<and> 2 \<le> sint (1000::64 word)
   \<and> (\<exists>r m k. fibonacci 0 zero_store (1000::64 word) = Some (r, m, k) \<and> k = 10
         \<and> real k \<le> log 2 999 + 1)"
proof -
  have h: "0 \<le> sint (1000::64 word)" by simp
  have g: "2 \<le> sint (1000::64 word)" by simp
  have c: "floorlog 2 (nat (sint (1000::64 word) - 1)) = 10" by code_simp
  have d: "real_of_int (sint (1000::64 word) - 1) = 999" by simp
  from fibonacci_terminates_logarithmic [OF h, of 0 zero_store] g
  have "\<exists>r m k. fibonacci 0 zero_store (1000::64 word) = Some (r, m, k) \<and> k = 10
         \<and> real k \<le> log 2 999 + 1"
    unfolding c d by blast
  with h g show ?thesis by (simp only: simp_thms)
qed

section \<open>The function: claims C1, C7, C8 and C9\<close>

text \<open>
  Claim C1. For every index \<open>n \<ge> 0\<close> the call returns the \<open>n\<close>-th Fibonacci number.
  For \<open>n \<ge> 2\<close> the value returned is the top-right entry of the matrix that the
  accumulator \<^verbatim>\<open>ret\<close> holds when the loop leaves, that matrix is the \<open>n\<close>-th power of the
  base matrix, and its four entries are \<open>F(n + 1)\<close>, \<open>F(n)\<close>, \<open>F(n)\<close> and \<open>F(n - 1)\<close>.
\<close>

theorem fibonacci_correct:
  fixes n :: "'l::len word"
  assumes "0 \<le> sint n"
  shows "fibonacci_value fp s n = Some (real (Fib (nat (sint n))))
         \<and> (2 \<le> sint n \<longrightarrow>
              (\<exists>m k. fibonacci fp s n = Some (top_right (full (load3 (fp + 3) m)), m, k)
                     \<and> full (load3 (fp + 3) m) = mat2_pow base2 (nat (sint n))
                     \<and> mat2_pow base2 (nat (sint n))
                         = (real (Fib (nat (sint n) + 1)), real (Fib (nat (sint n))),
                            real (Fib (nat (sint n))), real (Fib (nat (sint n) - 1)))))"
proof -
  from fibonacci_nonneg [OF assms, of fp s]
  obtain m where run: "fibonacci fp s n
        = Some (real (Fib (nat (sint n))), m, floorlog 2 (nat (sint n - 1)))"
    and acc: "2 \<le> sint n \<longrightarrow> full (load3 (fp + 3) m) = mat2_pow base2 (nat (sint n))"
    by blast
  have val: "fibonacci_value fp s n = Some (real (Fib (nat (sint n))))"
    by (simp add: fibonacci_value_def run)
  have "\<exists>m k. fibonacci fp s n = Some (top_right (full (load3 (fp + 3) m)), m, k)
             \<and> full (load3 (fp + 3) m) = mat2_pow base2 (nat (sint n))
             \<and> mat2_pow base2 (nat (sint n))
                 = (real (Fib (nat (sint n) + 1)), real (Fib (nat (sint n))),
                    real (Fib (nat (sint n))), real (Fib (nat (sint n) - 1)))"
    if ge2: "2 \<le> sint n"
  proof -
    obtain j where j: "nat (sint n) = Suc j" using ge2 by (cases "nat (sint n)") simp_all
    have shape: "mat2_pow base2 (nat (sint n))
        = (real (Fib (nat (sint n) + 1)), real (Fib (nat (sint n))),
           real (Fib (nat (sint n))), real (Fib (nat (sint n) - 1)))"
      unfolding j base2_pow_Suc by simp
    from acc ge2 have full: "full (load3 (fp + 3) m) = mat2_pow base2 (nat (sint n))" by simp
    have "top_right (full (load3 (fp + 3) m)) = real (Fib (nat (sint n)))"
      unfolding full shape by simp
    with run full shape show ?thesis by auto
  qed
  with val show ?thesis by blast
qed

text \<open>Claim C1 at index 10 on a 64-bit \<^verbatim>\<open>long\<close>.\<close>

theorem fibonacci_correct_witness:
  "0 \<le> sint (10::64 word)
   \<and> fibonacci_value 0 zero_store (10::64 word) = Some 55
   \<and> 2 \<le> sint (10::64 word)
   \<and> (\<exists>m k. fibonacci 0 zero_store (10::64 word) = Some (55, m, k)
            \<and> full (load3 3 m) = (89, 55, 55, 34))
   \<and> mat2_pow base2 10 = (89, 55, 55, 34)"
proof -
  have h: "0 \<le> sint (10::64 word)" by simp
  have g: "2 \<le> sint (10::64 word)" by simp
  have f: "real (Fib (nat (sint (10::64 word)))) = 55" by code_simp
  have p: "mat2_pow base2 (nat (sint (10::64 word))) = (89, 55, 55, 34)"
    by (simp add: numeral_eq_Suc base2_def mat2_one_def)
  have p': "mat2_pow base2 10 = (89, 55, 55, 34)"
    by (simp add: numeral_eq_Suc base2_def mat2_one_def)
  from fibonacci_correct [OF h, of 0 zero_store] g
  have v: "fibonacci_value 0 zero_store (10::64 word) = Some 55"
    and "\<exists>m k. fibonacci 0 zero_store (10::64 word) = Some (top_right (full (load3 (0 + 3) m)), m, k)
           \<and> full (load3 (0 + 3) m) = mat2_pow base2 (nat (sint (10::64 word)))"
    unfolding f by blast+
  then obtain m k where
    "fibonacci 0 zero_store (10::64 word) = Some (top_right (full (load3 (0 + 3) m)), m, k)"
    and "full (load3 (0 + 3) m) = mat2_pow base2 (nat (sint (10::64 word)))"
    by blast
  then have "fibonacci 0 zero_store (10::64 word) = Some (55, m, k) \<and> full (load3 3 m) = (89, 55, 55, 34)"
    unfolding p by simp
  then have "\<exists>m k. fibonacci 0 zero_store (10::64 word) = Some (55, m, k)
            \<and> full (load3 3 m) = (89, 55, 55, 34)" by blast
  with h g v p' show ?thesis by (simp only: simp_thms)
qed

text \<open>
  Claim C7. On a \<^verbatim>\<open>long\<close> of at least six bits (so that 20 is a non-negative index),
  the call returns 0 for index 0 and 1 for index 1, both with no pass through the loop
  and with nothing written but the two array initialisers, and it returns 1, 2, 55 and
  6765 for the indices 2, 3, 10 and 20.
\<close>

theorem fibonacci_small_values:
  assumes "6 \<le> LENGTH('l::len)"
  shows "fibonacci fp s (0::'l word) = Some (0, init_arrays fp (fp + 3) s, 0)
         \<and> fibonacci fp s (1::'l word) = Some (1, init_arrays fp (fp + 3) s, 0)
         \<and> fibonacci_value fp s (2::'l word) = Some 1
         \<and> fibonacci_value fp s (3::'l word) = Some 2
         \<and> fibonacci_value fp s (10::'l word) = Some 55
         \<and> fibonacci_value fp s (20::'l word) = Some 6765"
proof -
  have v0: "fibonacci fp s (0::'l word) = Some (0, init_arrays fp (fp + 3) s, 0)"
    by (simp add: fibonacci_def Let_def)
  have v1: "fibonacci fp s (1::'l word) = Some (1, init_arrays fp (fp + 3) s, 0)"
    by (simp add: fibonacci_def Let_def)
  have v2: "fibonacci_value fp s (2::'l word) = Some 1"
    using fibonacci_value_small [OF assms, of 2 fp s] by (simp add: numeral_eq_Suc)
  have v3: "fibonacci_value fp s (3::'l word) = Some 2"
    using fibonacci_value_small [OF assms, of 3 fp s] by (simp add: numeral_eq_Suc)
  have "Fib 10 = 55" by code_simp
  then have v10: "fibonacci_value fp s (10::'l word) = Some 55"
    using fibonacci_value_small [OF assms, of 10 fp s] by simp
  have "Fib 20 = 6765" by code_simp
  then have v20: "fibonacci_value fp s (20::'l word) = Some 6765"
    using fibonacci_value_small [OF assms, of 20 fp s] by simp
  from v0 v1 v2 v3 v10 v20 show ?thesis by (simp only: simp_thms)
qed

text \<open>Claim C7 on a 64-bit \<^verbatim>\<open>long\<close>.\<close>

theorem fibonacci_small_values_witness:
  "6 \<le> LENGTH(64)
   \<and> fibonacci 0 zero_store (0::64 word) = Some (0, init_arrays 0 3 zero_store, 0)
   \<and> fibonacci 0 zero_store (1::64 word) = Some (1, init_arrays 0 3 zero_store, 0)
   \<and> fibonacci_value 0 zero_store (2::64 word) = Some 1
   \<and> fibonacci_value 0 zero_store (3::64 word) = Some 2
   \<and> fibonacci_value 0 zero_store (10::64 word) = Some 55
   \<and> fibonacci_value 0 zero_store (20::64 word) = Some 6765"
proof -
  have h: "6 \<le> LENGTH(64)" by simp
  from fibonacci_small_values [OF h, of 0 zero_store] h show ?thesis by simp
qed

text \<open>
  Claim C8. For every index \<open>n \<ge> 2\<close>, the calls at \<open>n\<close>, \<open>n - 1\<close> and \<open>n - 2\<close> all
  return, in whatever memory each of them runs, and the first value is the sum of the
  other two.
\<close>

theorem fibonacci_recurrence:
  fixes n :: "'l::len word"
  assumes "2 \<le> sint n"
  shows "\<exists>x y z. fibonacci_value fp s n = Some x
           \<and> fibonacci_value fp1 s1 (n - 1) = Some y
           \<and> fibonacci_value fp2 s2 (n - 2) = Some z
           \<and> x = y + z"
proof -
  have p1: "sint (n - 1) = sint n - 1" using assms by (simp add: sint_pred)
  then have "0 < sint (n - 1)" using assms by simp
  then have "sint (n - 1 - 1) = sint (n - 1) - 1" by (rule sint_pred)
  moreover have "n - 1 - 1 = n - 2" by simp
  ultimately have p2: "sint (n - 2) = sint n - 2" using p1 by simp
  obtain j where j: "nat (sint n) = Suc (Suc j)"
    using assms by (cases "nat (sint n)" rule: Fib.cases) simp_all
  have i1: "nat (sint (n - 1)) = Suc j" using j p1 by simp
  have i2: "nat (sint (n - 2)) = j" using j p2 by simp
  have "0 \<le> sint n" using assms by simp
  from fibonacci_nonneg [OF this, of fp s]
  have x: "fibonacci_value fp s n = Some (real (Fib (Suc (Suc j))))"
    by (auto simp add: fibonacci_value_def j)
  have "0 \<le> sint (n - 1)" using assms p1 by simp
  from fibonacci_nonneg [OF this, of fp1 s1]
  have y: "fibonacci_value fp1 s1 (n - 1) = Some (real (Fib (Suc j)))"
    by (auto simp add: fibonacci_value_def i1)
  have "0 \<le> sint (n - 2)" using assms p2 by simp
  from fibonacci_nonneg [OF this, of fp2 s2]
  have z: "fibonacci_value fp2 s2 (n - 2) = Some (real (Fib j))"
    by (auto simp add: fibonacci_value_def i2)
  from x y z show ?thesis by simp
qed

text \<open>Claim C8 at index 20.\<close>

theorem fibonacci_recurrence_witness:
  "2 \<le> sint (20::64 word)
   \<and> (\<exists>x y z. fibonacci_value 0 zero_store (20::64 word) = Some x
           \<and> fibonacci_value 0 zero_store (19::64 word) = Some y
           \<and> fibonacci_value 0 zero_store (18::64 word) = Some z
           \<and> x = y + z)"
proof -
  have h: "2 \<le> sint (20::64 word)" by simp
  from fibonacci_recurrence [OF h, of 0 zero_store 0 zero_store 0 zero_store] h
  show ?thesis by simp
qed

text \<open>
  Claim C9. For every index, whether the call returns and what it returns depend on the
  index alone, not on the memory the call runs in or on where its frame lies; and when
  the call returns, it has changed no address outside the six of its own two arrays.
\<close>

theorem fibonacci_deterministic:
  fixes n :: "'l::len word"
  shows "fibonacci_value fp s n = fibonacci_value fp' s' n
         \<and> (\<forall>r m k. fibonacci fp s n = Some (r, m, k) \<longrightarrow>
               (\<forall>a. a \<notin> {fp ..< fp + 6} \<longrightarrow> m a = s a))"
proof -
  consider "n = 0" | "n = 1" | "n \<noteq> 0" "n \<noteq> 1" "sint (n - 1) < 0"
    | "n \<noteq> 0" "n \<noteq> 1" "0 \<le> sint (n - 1)"
    by fastforce
  then show ?thesis
  proof cases
    case 1
    then show ?thesis
      by (simp add: fibonacci_value_def fibonacci_def Let_def init_arrays_other)
  next
    case 2
    then show ?thesis
      by (simp add: fibonacci_value_def fibonacci_def Let_def init_arrays_other)
  next
    case 3
    then have "fibonacci fp s n = None" and "fibonacci fp' s' n = None"
      by (rule fibonacci_neg_case)+
    then show ?thesis by (simp add: fibonacci_value_def)
  next
    case 4
    from fibonacci_loop_case [OF 4, of fp s] fibonacci_loop_case [OF 4, of fp' s']
    show ?thesis by (auto simp add: fibonacci_value_def)
  qed
qed

text \<open>
  Claim C9 at index 10, for two calls with different frames in different memories, and
  at address 6, just beyond the frame of the first.
\<close>

theorem fibonacci_deterministic_witness:
  "fibonacci_value 0 zero_store (10::64 word)
     = fibonacci_value 100 (zero_store(3 := 7, 103 := 9)) (10::64 word)
   \<and> (\<exists>r m k. fibonacci 0 zero_store (10::64 word) = Some (r, m, k)
         \<and> 6 \<notin> {0 ..< 0 + (6::nat)} \<and> m 6 = zero_store 6)"
proof -
  have "0 \<le> sint (10::64 word)" by simp
  from fibonacci_nonneg [OF this, of 0 zero_store]
  obtain r m k where run: "fibonacci 0 zero_store (10::64 word) = Some (r, m, k)"
    by blast
  have out: "6 \<notin> {0 ..< 0 + (6::nat)}" by simp
  from fibonacci_deterministic [of 0 zero_store "10::64 word" 100 "zero_store(3 := 7, 103 := 9)"]
  have eq: "fibonacci_value 0 zero_store (10::64 word)
      = fibonacci_value 100 (zero_store(3 := 7, 103 := 9)) (10::64 word)"
    and fr: "\<forall>r m k. fibonacci 0 zero_store (10::64 word) = Some (r, m, k) \<longrightarrow>
               (\<forall>a. a \<notin> {0 ..< 0 + 6} \<longrightarrow> m a = zero_store a)"
    by blast+
  from fr run out have "m 6 = zero_store 6" by blast
  with run out have "\<exists>r m k. fibonacci 0 zero_store (10::64 word) = Some (r, m, k)
         \<and> 6 \<notin> {0 ..< 0 + (6::nat)} \<and> m 6 = zero_store 6"
    by blast
  with eq show ?thesis by (simp only: simp_thms)
qed

end
